theory Spec2Isabelle
  imports Main
begin

section \<open>Python strings\<close>

text \<open>
  The script works on Python \<^verbatim>\<open>str\<close> values: sequences of Unicode code points.
  A code point is a natural number, a string is a list of them, and a literal of the
  source is written \<open>str ''...''\<close>.
\<close>

type_synonym pystr = "nat list"

definition str :: "string \<Rightarrow> pystr" where
  "str s = map of_char s"

text \<open>
  \<^verbatim>\<open>str.isspace\<close> on one character, which is what \<^verbatim>\<open>strip\<close> and \<^verbatim>\<open>rstrip\<close>
  without an argument remove: the code points U+0009..U+000D, U+001C..U+0020, U+0085,
  U+00A0, U+1680, U+2000..U+200A, U+2028, U+2029, U+202F, U+205F and U+3000.
\<close>

definition is_space :: "nat \<Rightarrow> bool" where
  "is_space c =
     ((9 \<le> c \<and> c \<le> 13) \<or> (28 \<le> c \<and> c \<le> 32) \<or> c = 133 \<or> c = 160 \<or> c = 5760
      \<or> (8192 \<le> c \<and> c \<le> 8202) \<or> c = 8232 \<or> c = 8233 \<or> c = 8239 \<or> c = 8287
      \<or> c = 12288)"

definition lstrip :: "pystr \<Rightarrow> pystr" where
  "lstrip s = dropWhile is_space s"

definition rstrip :: "pystr \<Rightarrow> pystr" where
  "rstrip s = rev (dropWhile is_space (rev s))"

definition strip :: "pystr \<Rightarrow> pystr" where
  "strip s = rstrip (lstrip s)"

text \<open>\<^verbatim>\<open>s.startswith(p)\<close> and \<^verbatim>\<open>s.endswith(p)\<close>.\<close>

definition startswith :: "pystr \<Rightarrow> pystr \<Rightarrow> bool" where
  "startswith s p = (take (length p) s = p)"

definition endswith :: "pystr \<Rightarrow> pystr \<Rightarrow> bool" where
  "endswith s p = (length p \<le> length s \<and> drop (length s - length p) s = p)"

text \<open>
  Slices with Python's rules for the bounds: a negative bound counts from the end, and
  every bound is clipped to the string. \<open>slice_to s j\<close> is \<^verbatim>\<open>s[:j]\<close>,
  \<open>slice_from s i\<close> is \<^verbatim>\<open>s[i:]\<close> and \<open>slice s i j\<close> is \<^verbatim>\<open>s[i:j]\<close>.
\<close>

definition clip :: "pystr \<Rightarrow> int \<Rightarrow> nat" where
  "clip s i = (if i < 0 then nat (int (length s) + i) else min (nat i) (length s))"

definition slice_to :: "pystr \<Rightarrow> int \<Rightarrow> pystr" where
  "slice_to s j = take (clip s j) s"

definition slice_from :: "pystr \<Rightarrow> int \<Rightarrow> pystr" where
  "slice_from s i = drop (clip s i) s"

definition slice :: "pystr \<Rightarrow> int \<Rightarrow> int \<Rightarrow> pystr" where
  "slice s i j = drop (clip s i) (take (clip s j) s)"

text \<open>
  \<^verbatim>\<open>s.find(sub)\<close>: the lowest index at which \<open>sub\<close> starts in \<open>s\<close>, or \<open>-1\<close>
  when it starts nowhere.
\<close>

fun find_str :: "pystr \<Rightarrow> pystr \<Rightarrow> int" where
  "find_str [] sub = (if sub = [] then 0 else - 1)"
| "find_str (c # cs) sub =
     (if startswith (c # cs) sub then 0
      else (let r = find_str cs sub in if r = - 1 then - 1 else r + 1))"

text \<open>
  \<^verbatim>\<open>s.split('\n')\<close>: the pieces between the line feeds (code point 10). There is
  always at least one piece, and a string that ends in a line feed has an empty last
  piece.
\<close>

fun split_nl :: "pystr \<Rightarrow> pystr list" where
  "split_nl [] = [[]]"
| "split_nl (c # cs) =
     (if c = 10 then [] # split_nl cs
      else (case split_nl cs of [] \<Rightarrow> [[c]] | l # ls \<Rightarrow> (c # l) # ls))"

section \<open>The line filter: \<^verbatim>\<open>minify_content\<close>\<close>

text \<open>
  The inner loop of \<^verbatim>\<open>minify_content\<close>:
  \<^verbatim>\<open>
  comment_pos = -1
  for i in range(len(stripped) - 1):
      if stripped[i:i+2] == '//':
          if i > 0 and stripped[i-1] != ':':
              comment_pos = i
              break
  \<close>
  \<open>comment_scan stripped is\<close> runs it over the indices \<open>is\<close> that are left; the
  character before position \<open>i\<close> is read only when \<open>i > 0\<close>, where it exists.
\<close>

fun comment_scan :: "pystr \<Rightarrow> nat list \<Rightarrow> int" where
  "comment_scan stripped [] = - 1"
| "comment_scan stripped (i # is) =
     (if slice stripped (int i) (int i + 2) = str ''//''
      then (if i > 0 then (if stripped ! (i - 1) \<noteq> of_char CHR '':''
                           then int i
                           else comment_scan stripped is)
            else comment_scan stripped is)
      else comment_scan stripped is)"

definition comment_pos :: "pystr \<Rightarrow> int" where
  "comment_pos stripped = comment_scan stripped [0 ..< length stripped - 1]"

text \<open>
  One pass of the outer loop body on one line: \<open>None\<close> where the source reaches a
  \<^verbatim>\<open>continue\<close>, \<open>Some stripped\<close> where it appends to \<^verbatim>\<open>minified_lines\<close>.
\<close>

definition minify_line :: "pystr \<Rightarrow> pystr option" where
  "minify_line line =
     (if strip line = [] then None
      else if startswith (strip line) (str ''<!--'') \<and> endswith (strip line) (str ''-->'')
      then None
      else (let stripped = strip line in
        if startswith stripped (str ''//'') then None
        else (let p = comment_pos stripped;
                  stripped = (if p \<noteq> - 1 then rstrip (slice_to stripped p) else stripped)
              in if stripped = [] then None else Some stripped)))"

text \<open>The outer loop, with \<^verbatim>\<open>minified_lines\<close> as the accumulator.\<close>

fun minify_loop :: "pystr list \<Rightarrow> pystr list \<Rightarrow> pystr list" where
  "minify_loop [] minified_lines = minified_lines"
| "minify_loop (line # lines) minified_lines =
     (case minify_line line of
        None \<Rightarrow> minify_loop lines minified_lines
      | Some stripped \<Rightarrow> minify_loop lines (minified_lines @ [stripped]))"

definition minify_content :: "pystr \<Rightarrow> pystr" where
  "minify_content content = concat (minify_loop (split_nl content) [])"

section \<open>The marker splitter and the run: \<^verbatim>\<open>split_svg\<close> and \<^verbatim>\<open>main\<close>\<close>

definition start_marker :: pystr where
  "start_marker = str ''<!-- Dynamic Content Start -->''"

definition end_marker :: pystr where
  "end_marker = str ''<!-- Dynamic Content End -->''"

text \<open>
  The part of \<^verbatim>\<open>split_svg\<close> that finds the markers and cuts the content, from
  \<^verbatim>\<open>start_pos = content.find(start_marker)\<close> to the assignment of
  \<^verbatim>\<open>end_part\<close>: \<open>None\<close> where the source prints its error and returns, and
  \<open>Some (start_part, end_part)\<close> otherwise.
\<close>

definition split_parts :: "pystr \<Rightarrow> (pystr \<times> pystr) option" where
  "split_parts content =
     (let start_pos = find_str content start_marker;
          end_pos = find_str content end_marker
      in if start_pos = - 1 \<or> end_pos = - 1 then None
         else Some (slice_to content start_pos,
                    slice_from content (end_pos + int (length end_marker))))"

text \<open>
  The run reads one file, prints, and writes up to three files. The world it runs in is
  the file system and the standard output. A path that exists holds a text file, with
  the content that reading it returns, or something whose reading raises; opening a
  write-protected path for writing raises. The printed lines are kept as messages, the
  numbers they show as their arguments (the percentage of the source is a float: the
  message keeps the two sizes it is computed from).
\<close>

datatype exn = OSError | UnicodeDecodeError | ZeroDivisionError | TypeError

datatype node = Text pystr | Unreadable exn

datatype msg =
    Processing_file string
  | Original_file_size nat
  | Error_no_markers
  | Split_parts
  | Start_part_length nat
  | End_part_length nat
  | Minifying_parts
  | Minified_full_size nat
  | Reduction nat nat
  | Error_file_not_found string
  | Files_created
  | Start_created string
  | End_created string
  | Minified_created string
  | Error_processing exn

record world =
  nodes :: "string \<rightharpoonup> node"
  write_protected :: "string \<Rightarrow> bool"
  stdout :: "msg list"

definition print :: "msg \<Rightarrow> world \<Rightarrow> world" where
  "print m w = w\<lparr>stdout := stdout w @ [m]\<rparr>"

definition read_file :: "string \<Rightarrow> world \<Rightarrow> exn + pystr" where
  "read_file path w =
     (case nodes w path of
        None \<Rightarrow> Inl OSError
      | Some (Text content) \<Rightarrow> Inr content
      | Some (Unreadable e) \<Rightarrow> Inl e)"

definition write_file :: "string \<Rightarrow> pystr \<Rightarrow> world \<Rightarrow> exn + world" where
  "write_file path data w =
     (if write_protected w path then Inl OSError
      else Inr (w\<lparr>nodes := (nodes w)(path \<mapsto> Text data)\<rparr>))"

text \<open>
  \<^verbatim>\<open>split_svg\<close> returns its three results, each \<open>None\<close> when a marker is missing,
  or raises; in both cases with the world as it has left it.
\<close>

definition split_svg ::
  "string \<Rightarrow> world \<Rightarrow> (exn + pystr option \<times> pystr option \<times> pystr option) \<times> world" where
  "split_svg file_path w =
     (let w = print (Processing_file file_path) w in
      case read_file file_path w of
        Inl e \<Rightarrow> (Inl e, w)
      | Inr content \<Rightarrow>
          (let original_size = length content;
               w = print (Original_file_size original_size) w
           in case split_parts content of
                None \<Rightarrow> (Inr (None, None, None), print Error_no_markers w)
              | Some (start_part, end_part) \<Rightarrow>
                  (let w = print Split_parts w;
                       w = print (Start_part_length (length start_part)) w;
                       w = print (End_part_length (length end_part)) w;
                       w = print Minifying_parts w;
                       minified_start = minify_content start_part;
                       minified_end = minify_content end_part;
                       minified_full = minify_content content;
                       minified_size = length minified_full
                   in if original_size = 0 then (Inl ZeroDivisionError, w)
                      else
                        (let w = print (Minified_full_size minified_size) w;
                             w = print (Reduction minified_size original_size) w
                         in (Inr (Some minified_start, Some minified_end,
                                  Some minified_full), w)))))"

definition input_path :: string where
  "input_path = ''assets/paint.full.svg''"

definition start_file :: string where
  "start_file = ''assets/paint.min.start.svg''"

definition end_file :: string where
  "end_file = ''assets/paint.min.end.svg''"

definition minified_file :: string where
  "minified_file = ''assets/paint.min.svg''"

text \<open>
  The three writes of \<^verbatim>\<open>main\<close>, inside its \<^verbatim>\<open>try\<close>: the first that raises
  ends them, with the exception and the world as it is then, so that what was written
  before stays written. Writing \<^verbatim>\<open>None\<close> raises after the file has been opened.
\<close>

definition write_outputs ::
  "pystr \<Rightarrow> pystr \<Rightarrow> pystr option \<Rightarrow> world \<Rightarrow> exn option \<times> world" where
  "write_outputs start_part end_part full_content w =
     (case write_file start_file start_part w of
        Inl e \<Rightarrow> (Some e, w)
      | Inr w \<Rightarrow>
          (case write_file end_file end_part w of
             Inl e \<Rightarrow> (Some e, w)
           | Inr w \<Rightarrow>
               (let w = print Files_created w;
                    w = print (Start_created start_file) w;
                    w = print (End_created end_file) w
                in case full_content of
                     None \<Rightarrow>
                       (case write_file minified_file [] w of
                          Inl e \<Rightarrow> (Some e, w)
                        | Inr w \<Rightarrow> (Some TypeError, w))
                   | Some full \<Rightarrow>
                       (case write_file minified_file full w of
                          Inl e \<Rightarrow> (Some e, w)
                        | Inr w \<Rightarrow> (None, print (Minified_created minified_file) w)))))"

text \<open>
  \<^verbatim>\<open>main\<close>: the file is looked for first; everything after is under the
  \<^verbatim>\<open>try\<close>, whose handler prints the exception and ends the run.
\<close>

definition main :: "world \<Rightarrow> world" where
  "main w =
     (if nodes w input_path = None then print (Error_file_not_found input_path) w
      else
        (case split_svg input_path w of
           (Inl e, w) \<Rightarrow> print (Error_processing e) w
         | (Inr (start_part, end_part, full_content), w) \<Rightarrow>
             (case start_part of
                None \<Rightarrow> w
              | Some start_part \<Rightarrow>
                  (case end_part of
                     None \<Rightarrow> w
                   | Some end_part \<Rightarrow>
                       (case write_outputs start_part end_part full_content w of
                          (Some e, w) \<Rightarrow> print (Error_processing e) w
                        | (None, w) \<Rightarrow> w)))))"

section \<open>Substrings\<close>

text \<open>
  The notions the properties below are stated with. \<open>occurs_at s sub i\<close>: the string
  \<open>sub\<close> starts at index \<open>i\<close> of \<open>s\<close>. \<open>first_at s sub i\<close>: it starts there and at no
  smaller index. \<open>contains s sub\<close>: it starts somewhere, which is Python's
  \<^verbatim>\<open>sub in s\<close>.
\<close>

definition occurs_at :: "pystr \<Rightarrow> pystr \<Rightarrow> nat \<Rightarrow> bool" where
  "occurs_at s sub i = (i + length sub \<le> length s \<and> take (length sub) (drop i s) = sub)"

definition first_at :: "pystr \<Rightarrow> pystr \<Rightarrow> nat \<Rightarrow> bool" where
  "first_at s sub i = (occurs_at s sub i \<and> list_all (\<lambda>j. \<not> occurs_at s sub j) [0 ..< i])"

definition contains :: "pystr \<Rightarrow> pystr \<Rightarrow> bool" where
  "contains s sub = list_ex (occurs_at s sub) [0 ..< Suc (length s)]"

text \<open>
  \<open>comment_start s i\<close>: a \<^verbatim>\<open>//\<close> starts at index \<open>i\<close> of \<open>s\<close>, the character before
  it exists and is not a colon.
\<close>

definition comment_start :: "pystr \<Rightarrow> nat \<Rightarrow> bool" where
  "comment_start s i =
     (occurs_at s (str ''//'') i \<and> 0 < i \<and> s ! (i - 1) \<noteq> of_char CHR '':'')"

section \<open>Example documents\<close>

text \<open>The document of the example scenario, with its line feeds.\<close>

definition scenario_doc :: pystr where
  "scenario_doc =
     str ''<!--c-->'' @ [10] @ str ''A'' @ [10] @ start_marker @ [10] @ str ''MID'' @ [10]
       @ end_marker @ [10] @ str ''B // x'' @ [10]"

text \<open>A document in which the end marker comes first and occurs twice.\<close>

definition reversed_doc :: pystr where
  "reversed_doc = end_marker @ str ''x'' @ start_marker @ str ''y'' @ end_marker @ str ''z''"

text \<open>A document with the start marker only.\<close>

definition start_only_doc :: pystr where
  "start_only_doc = str ''a'' @ start_marker @ str ''b''"

text \<open>A document of blank lines: two spaces, a tab, and an empty last line.\<close>

definition blank_doc :: pystr where
  "blank_doc = str ''  '' @ [10] @ [9] @ [10]"

text \<open>
  A document of two lines without comment syntax, with spaces around them, that ends in a
  line feed.
\<close>

definition plain_doc :: pystr where
  "plain_doc = str '' ab '' @ [10] @ str ''c:d  '' @ [10]"

text \<open>A line with a colon-guarded \<^verbatim>\<open>//\<close> before an unguarded one.\<close>

definition guarded_line :: pystr where
  "guarded_line = str ''  a://b // c''"

text \<open>A single line, trimmed, whose only \<^verbatim>\<open>//\<close> follows a colon.\<close>

definition url_doc :: pystr where
  "url_doc = str ''http://example.com''"

text \<open>Worlds that hold one of these documents at the input path and nothing else.\<close>

definition world_with :: "pystr \<Rightarrow> world" where
  "world_with content =
     \<lparr>nodes = [input_path \<mapsto> Text content], write_protected = (\<lambda>path. False), stdout = []\<rparr>"

section \<open>What \<^verbatim>\<open>find\<close> returns\<close>

lemma take_eq_length: "take (length sub) s = sub \<Longrightarrow> length sub \<le> length s"
proof -
  assume "take (length sub) s = sub"
  then have "length (take (length sub) s) = length sub" by simp
  then show ?thesis by simp
qed

lemma occurs_at_0: "occurs_at s sub 0 = startswith s sub"
  using take_eq_length [of sub s] by (auto simp: occurs_at_def startswith_def)

lemma occurs_at_Suc: "occurs_at (c # cs) sub (Suc i) = occurs_at cs sub i"
  by (simp add: occurs_at_def)

lemma occurs_at_Nil: "occurs_at [] sub i = (sub = [] \<and> i = 0)"
  by (auto simp: occurs_at_def)

lemma find_str_lower: "- 1 \<le> find_str s sub"
  by (induction s) (simp_all add: Let_def)

lemma find_str_occurs: "find_str s sub = int i \<Longrightarrow> occurs_at s sub i"
proof (induction s arbitrary: i)
  case Nil
  then show ?case by (simp add: occurs_at_Nil split: if_splits)
next
  case (Cons c cs)
  show ?case
  proof (cases "startswith (c # cs) sub")
    case True
    with Cons.prems show ?thesis by (simp add: occurs_at_0)
  next
    case False
    with Cons.prems have r: "find_str cs sub \<noteq> - 1" "find_str cs sub + 1 = int i"
      by (simp_all add: Let_def split: if_splits)
    from r find_str_lower [of cs sub] have "0 < i" by linarith
    then obtain k where k: "i = Suc k" by (cases i) simp_all
    with r have "find_str cs sub = int k" by simp
    with Cons.IH k show ?thesis by (simp add: occurs_at_Suc)
  qed
qed

lemma find_str_least: "occurs_at s sub j \<Longrightarrow> 0 \<le> find_str s sub \<and> find_str s sub \<le> int j"
proof (induction s arbitrary: j)
  case Nil
  then show ?case by (simp add: occurs_at_Nil)
next
  case (Cons c cs)
  show ?case
  proof (cases "startswith (c # cs) sub")
    case True
    then show ?thesis by simp
  next
    case False
    with Cons.prems obtain k where k: "j = Suc k"
      by (cases j) (simp_all add: occurs_at_0)
    with Cons.prems have "occurs_at cs sub k" by (simp add: occurs_at_Suc)
    from Cons.IH [OF this] False k show ?thesis by (simp add: Let_def)
  qed
qed

lemma find_str_first: "first_at s sub i \<longleftrightarrow> find_str s sub = int i"
proof
  assume f: "first_at s sub i"
  then have o: "occurs_at s sub i" by (simp add: first_at_def)
  from find_str_least [OF o] obtain k where k: "find_str s sub = int k"
    using zero_le_imp_eq_int by blast
  with find_str_least [OF o] have le: "k \<le> i" by simp
  have "\<not> k < i"
  proof
    assume "k < i"
    with f have "\<not> occurs_at s sub k" by (simp add: first_at_def list_all_iff)
    with find_str_occurs [OF k] show False by simp
  qed
  with le k show "find_str s sub = int i" by simp
next
  assume e: "find_str s sub = int i"
  have "\<not> occurs_at s sub j" if "j < i" for j
  proof
    assume "occurs_at s sub j"
    from find_str_least [OF this] e that show False by simp
  qed
  with find_str_occurs [OF e] show "first_at s sub i"
    by (simp add: first_at_def list_all_iff)
qed

lemma contains_iff: "contains s sub \<longleftrightarrow> (\<exists>i. occurs_at s sub i)"
proof
  assume "contains s sub"
  then show "\<exists>i. occurs_at s sub i" by (auto simp: contains_def list_ex_iff simp del: upt_Suc)
next
  assume "\<exists>i. occurs_at s sub i"
  then obtain i where i: "occurs_at s sub i" by blast
  then have "i < Suc (length s)" by (simp add: occurs_at_def)
  with i show "contains s sub" by (auto simp: contains_def list_ex_iff simp del: upt_Suc)
qed

lemma find_str_absent: "find_str s sub = - 1 \<longleftrightarrow> \<not> contains s sub"
proof
  assume m: "find_str s sub = - 1"
  show "\<not> contains s sub"
  proof
    assume "contains s sub"
    then obtain i where "occurs_at s sub i" by (auto simp: contains_iff)
    from find_str_least [OF this] m show False by simp
  qed
next
  assume n: "\<not> contains s sub"
  show "find_str s sub = - 1"
  proof (rule ccontr)
    assume "find_str s sub \<noteq> - 1"
    with find_str_lower [of s sub] have "0 \<le> find_str s sub" by linarith
    then obtain k where "find_str s sub = int k" using zero_le_imp_eq_int by blast
    from find_str_occurs [OF this] n show False by (auto simp: contains_iff)
  qed
qed

lemma find_str_found: "contains s sub \<Longrightarrow> \<exists>i. find_str s sub = int i \<and> first_at s sub i"
proof -
  assume "contains s sub"
  then have "find_str s sub \<noteq> - 1" by (simp add: find_str_absent)
  with find_str_lower [of s sub] have "0 \<le> find_str s sub" by linarith
  then obtain k where "find_str s sub = int k" using zero_le_imp_eq_int by blast
  then show ?thesis by (auto simp: find_str_first)
qed

lemma occurs_at_append: "occurs_at s sub i \<longleftrightarrow> (\<exists>r. s = take i s @ sub @ r \<and> i \<le> length s)"
proof
  assume o: "occurs_at s sub i"
  have "s = take i s @ drop i s" by simp
  also have "drop i s = take (length sub) (drop i s) @ drop (length sub) (drop i s)"
    by (simp only: append_take_drop_id)
  finally have "s = take i s @ sub @ drop (length sub) (drop i s)" using o by (simp add: occurs_at_def)
  with o show "\<exists>r. s = take i s @ sub @ r \<and> i \<le> length s" by (auto simp: occurs_at_def)
next
  assume "\<exists>r. s = take i s @ sub @ r \<and> i \<le> length s"
  then obtain r where r: "s = take i s @ sub @ r" "i \<le> length s" by blast
  then have "drop i s = sub @ r" by (metis append_eq_conv_conj length_take min.absorb2)
  moreover from r have "length s = i + length sub + length r"
    by (metis length_append length_take min.absorb2 add.assoc)
  ultimately show "occurs_at s sub i" by (simp add: occurs_at_def)
qed

lemma clip_nat: "clip s (int i) = min i (length s)"
  by (simp add: clip_def)

lemma slice_to_nat: "slice_to s (int i) = take i s"
  by (cases "i \<le> length s") (simp_all add: slice_to_def clip_nat min_def)

lemma slice_from_nat: "slice_from s (int i) = drop i s"
  by (cases "i \<le> length s") (simp_all add: slice_from_def clip_nat min_def)

lemma slice_nat: "i \<le> j \<Longrightarrow> slice s (int i) (int j) = take (j - i) (drop i s)"
  by (simp add: slice_def clip_nat drop_take min_def)

lemma split_parts_first:
  assumes "first_at content start_marker i" and "first_at content end_marker k"
  shows "split_parts content = Some (take i content, drop (k + length end_marker) content)"
proof -
  from assms have "find_str content start_marker = int i" "find_str content end_marker = int k"
    by (simp_all add: find_str_first)
  moreover have "int k + int (length end_marker) = int (k + length end_marker)" by simp
  ultimately show ?thesis
    unfolding split_parts_def Let_def by (simp only: slice_to_nat slice_from_nat) simp
qed

lemma split_parts_None:
  "split_parts content = None \<longleftrightarrow> \<not> contains content start_marker \<or> \<not> contains content end_marker"
  by (simp add: split_parts_def Let_def find_str_absent)

lemma occurs_at_take:
  assumes "occurs_at (take i s) sub j"
  shows "occurs_at s sub j \<and> j + length sub \<le> i"
proof -
  from assms have l: "j + length sub \<le> min (length s) i"
    and t: "take (length sub) (drop j (take i s)) = sub"
    by (simp_all add: occurs_at_def)
  from l have "length sub \<le> i - j" by arith
  then have "take (length sub) (take (i - j) (drop j s)) = take (length sub) (drop j s)"
    by (simp add: min_def)
  with t have "take (length sub) (drop j s) = sub" by (simp add: drop_take)
  with l show ?thesis by (simp add: occurs_at_def)
qed

lemma length_start_marker: "length start_marker = 30"
  by (simp add: start_marker_def str_def)

lemma length_end_marker: "length end_marker = 28"
  by (simp add: end_marker_def str_def)

lemma occurs_at_nth:
  assumes "occurs_at s sub i" and "j < length sub"
  shows "s ! (i + j) = sub ! j"
proof -
  from assms(1) have l: "i + length sub \<le> length s"
    and t: "take (length sub) (drop i s) = sub"
    by (simp_all add: occurs_at_def)
  from assms(2) have "sub ! j = take (length sub) (drop i s) ! j" by (simp only: t)
  also from assms(2) have "\<dots> = drop i s ! j" by simp
  also from l assms(2) have "\<dots> = s ! (i + j)" by simp
  finally show ?thesis by simp
qed

lemma occurs_at_drop:
  assumes "occurs_at s sub i"
  shows "drop i s = sub @ drop (i + length sub) s"
proof -
  have "drop i s = take (length sub) (drop i s) @ drop (length sub) (drop i s)"
    by (simp only: append_take_drop_id)
  with assms show ?thesis by (simp add: occurs_at_def add.commute)
qed

lemma start_marker_inside: "of_char CHR ''<'' \<notin> set (tl start_marker)"
  by (simp add: start_marker_def str_def)

lemma end_marker_head: "end_marker ! 0 = of_char CHR ''<''"
  by (simp add: end_marker_def str_def)

lemma markers_apart:
  assumes "occurs_at s start_marker i" and "occurs_at s end_marker k" and "i < k"
  shows "i + length start_marker \<le> k"
proof (rule ccontr)
  assume n: "\<not> i + length start_marker \<le> k"
  define j where "j = k - Suc i"
  from n assms(3) have j: "k = i + Suc j" "Suc j < length start_marker"
    by (simp_all add: j_def)
  from occurs_at_nth [OF assms(2), of 0] have "s ! k = of_char CHR ''<''"
    by (simp add: end_marker_head length_end_marker)
  moreover from occurs_at_nth [OF assms(1) j(2)] j(1) have "s ! k = start_marker ! Suc j" by simp
  moreover from j(2) have "start_marker ! Suc j = tl start_marker ! j"
    by (simp add: nth_tl)
  moreover from j(2) have "tl start_marker ! j \<in> set (tl start_marker)"
    by (intro nth_mem) simp
  ultimately have "of_char CHR ''<'' \<in> set (tl start_marker)" by simp
  with start_marker_inside show False by simp
qed

lemma between_markers:
  assumes os: "occurs_at content start_marker i" and oe: "occurs_at content end_marker k"
    and "i < k"
  shows "\<exists>inner. drop i content =
           start_marker @ inner @ end_marker @ drop (k + length end_marker) content"
proof -
  define m where "m = i + length start_marker"
  from markers_apart [OF assms] have ap: "m \<le> k" by (simp add: m_def)
  have "drop m content = take (k - m) (drop m content) @ drop (k - m) (drop m content)"
    by (simp only: append_take_drop_id)
  also from ap have "drop (k - m) (drop m content) = drop k content" by simp
  finally have d1: "drop m content = take (k - m) (drop m content) @ drop k content" .
  have "drop i content = start_marker @ drop m content"
    using occurs_at_drop [OF os] by (simp only: m_def)
  also have "\<dots> = start_marker @ take (k - m) (drop m content) @ drop k content"
    using d1 by (simp only: append_assoc) 
  also have "drop k content = end_marker @ drop (k + length end_marker) content"
    by (rule occurs_at_drop [OF oe])
  finally show ?thesis by blast
qed

lemma split_parts_nonempty: "split_parts content = Some r \<Longrightarrow> content \<noteq> []"
proof
  assume "split_parts content = Some r" and "content = []"
  then show False by (simp add: split_parts_def start_marker_def str_def)
qed

lemma split_svg_no_markers:
  assumes "nodes w path = Some (Text content)" and "split_parts content = None"
  shows "split_svg path w =
           (Inr (None, None, None),
            w\<lparr>stdout := stdout w @ [Processing_file path, Original_file_size (length content),
                                     Error_no_markers]\<rparr>)"
  using assms by (simp add: split_svg_def read_file_def print_def Let_def)

lemma split_svg_found:
  assumes "nodes w path = Some (Text content)" and "split_parts content = Some (sp, ep)"
  shows "fst (split_svg path w) =
           Inr (Some (minify_content sp), Some (minify_content ep), Some (minify_content content))"
  using assms split_parts_nonempty [OF assms(2)]
  by (simp add: split_svg_def read_file_def print_def Let_def)

lemma main_no_markers:
  assumes "nodes w input_path = Some (Text content)" and "split_parts content = None"
  shows "main w = w\<lparr>stdout := stdout w @ [Processing_file input_path,
                      Original_file_size (length content), Error_no_markers]\<rparr>"
  using assms by (simp add: main_def split_svg_no_markers)

lemma start_only_doc_end: "\<not> contains start_only_doc end_marker"
  by (simp add: contains_def occurs_at_def start_only_doc_def start_marker_def end_marker_def
      str_def)

lemma reversed_doc_start: "find_str reversed_doc start_marker = 29"
  by (simp add: reversed_doc_def start_marker_def end_marker_def str_def startswith_def)

lemma reversed_doc_end: "find_str reversed_doc end_marker = 0"
  by (simp add: reversed_doc_def start_marker_def end_marker_def str_def startswith_def)

lemma scenario_doc_start: "find_str scenario_doc start_marker = 11"
  by (simp add: scenario_doc_def start_marker_def end_marker_def str_def startswith_def)

lemma scenario_doc_end: "find_str scenario_doc end_marker = 46"
  by (simp add: scenario_doc_def start_marker_def end_marker_def str_def startswith_def)

section \<open>Facts about the line filter\<close>

lemma minify_loop_acc: "minify_loop lines acc = acc @ minify_loop lines []"
proof (induction lines arbitrary: acc)
  case Nil
  show ?case by simp
next
  case (Cons l ls)
  show ?case
  proof (cases "minify_line l")
    case None
    with Cons.IH [of acc] show ?thesis by simp
  next
    case (Some x)
    have "minify_loop (l # ls) acc = minify_loop ls (acc @ [x])" using Some by simp
    also have "\<dots> = (acc @ [x]) @ minify_loop ls []" by (rule Cons.IH)
    also have "\<dots> = acc @ ([x] @ minify_loop ls [])" by simp
    also have "[x] @ minify_loop ls [] = minify_loop ls [x]" by (rule Cons.IH [symmetric])
    also have "minify_loop ls [x] = minify_loop (l # ls) []" using Some by simp
    finally show ?thesis .
  qed
qed

lemma minify_loop_Cons:
  "minify_loop (l # ls) [] =
     (case minify_line l of None \<Rightarrow> [] | Some x \<Rightarrow> [x]) @ minify_loop ls []"
proof (cases "minify_line l")
  case None
  then show ?thesis by simp
next
  case (Some x)
  then have "minify_loop (l # ls) [] = minify_loop ls [x]" by simp
  with minify_loop_acc [of ls "[x]"] Some show ?thesis by simp
qed

lemma length_rstrip: "length (rstrip s) \<le> length s"
  using length_dropWhile_le [of is_space "rev s"] by (simp add: rstrip_def)

lemma length_strip: "length (strip s) \<le> length s"
proof -
  have "length (strip s) \<le> length (lstrip s)" unfolding strip_def by (rule length_rstrip)
  also have "\<dots> \<le> length s" unfolding lstrip_def by (rule length_dropWhile_le)
  finally show ?thesis .
qed

lemma length_slice_to: "length (slice_to s j) \<le> length s"
  by (simp add: slice_to_def)

lemma length_minify_line:
  assumes "minify_line l = Some x"
  shows "length x \<le> length l"
proof -
  from assms have "x = strip l \<or> x = rstrip (slice_to (strip l) (comment_pos (strip l)))"
    by (auto simp: minify_line_def Let_def split: if_splits)
  moreover have "length (rstrip (slice_to (strip l) (comment_pos (strip l)))) \<le> length (strip l)"
    using length_rstrip [of "slice_to (strip l) (comment_pos (strip l))"]
      length_slice_to [of "strip l" "comment_pos (strip l)"] by simp
  ultimately show ?thesis using length_strip [of l] by auto
qed

lemma length_minify_loop: "length (concat (minify_loop ls [])) \<le> length (concat ls)"
proof (induction ls)
  case Nil
  show ?case by simp
next
  case (Cons l ls)
  show ?case
  proof (cases "minify_line l")
    case None
    with Cons.IH show ?thesis unfolding minify_loop_Cons by simp
  next
    case (Some x)
    with Cons.IH length_minify_line [OF Some] show ?thesis unfolding minify_loop_Cons by simp
  qed
qed

lemma split_nl_nonempty: "split_nl s \<noteq> []"
  by (induction s) (simp_all split: list.splits)

lemma length_concat_split_nl: "length (concat (split_nl s)) \<le> length s"
proof (induction s)
  case Nil
  show ?case by simp
next
  case (Cons c cs)
  then show ?case by (cases "split_nl cs") (simp_all add: split_nl_nonempty)
qed

lemma dropWhile_all: "dropWhile P xs = [] \<longleftrightarrow> (\<forall>x\<in>set xs. P x)"
  by (induction xs) simp_all

lemma rstrip_empty: "rstrip s = [] \<longleftrightarrow> (\<forall>c\<in>set s. is_space c)"
  by (simp add: rstrip_def dropWhile_all)

lemma strip_blank: "(\<forall>c\<in>set s. is_space c) \<Longrightarrow> strip s = []"
proof -
  assume a: "\<forall>c\<in>set s. is_space c"
  then have "lstrip s = []" by (simp add: lstrip_def dropWhile_all)
  then show ?thesis by (simp add: strip_def rstrip_def)
qed

lemma minify_loop_all_dropped:
  "(\<forall>l\<in>set ls. minify_line l = None) \<Longrightarrow> minify_loop ls [] = []"
  by (induction ls) simp_all

lemma slice_two:
  "slice s (int i) (int i + 2) = str ''//'' \<longleftrightarrow> occurs_at s (str ''//'') i"
proof -
  have e: "int i + 2 = int (i + 2)" by simp
  have l: "length (str ''//'') = 2" by (simp add: str_def)
  have "slice s (int i) (int (i + 2)) = take (i + 2 - i) (drop i s)"
    by (rule slice_nat) simp
  then have t: "slice s (int i) (int i + 2) = take 2 (drop i s)"
    by (simp only: e) simp
  show ?thesis
  proof (cases "i + 2 \<le> length s")
    case True
    with t show ?thesis by (simp add: occurs_at_def l)
  next
    case False
    with t have "length (slice s (int i) (int i + 2)) < 2" by simp
    with l have "slice s (int i) (int i + 2) \<noteq> str ''//''" by auto
    with False show ?thesis by (simp add: occurs_at_def l)
  qed
qed

lemma comment_scan_step:
  "comment_scan s (i # is) = (if comment_start s i then int i else comment_scan s is)"
  by (simp add: slice_two comment_start_def)

lemma comment_scan_none: "(\<forall>i\<in>set is. \<not> comment_start s i) \<Longrightarrow> comment_scan s is = - 1"
proof (induction "is")
  case Nil
  show ?case by simp
next
  case (Cons i "is")
  then show ?case by (simp only: comment_scan_step) simp
qed

lemma comment_scan_first:
  "(\<forall>j\<in>set pre. \<not> comment_start s j) \<Longrightarrow> comment_start s i \<Longrightarrow>
     comment_scan s (pre @ i # post) = int i"
proof (induction pre)
  case Nil
  then show ?case by (simp only: append_Nil comment_scan_step) simp
next
  case (Cons j pre)
  then show ?case by (simp only: append_Cons comment_scan_step) simp
qed

lemma comment_start_range: "comment_start s i \<Longrightarrow> i < length s - 1"
proof -
  assume "comment_start s i"
  then have "i + 2 \<le> length s" by (simp add: comment_start_def occurs_at_def str_def)
  then show ?thesis by arith
qed

lemma comment_pos_none: "(\<forall>i. \<not> comment_start s i) \<Longrightarrow> comment_pos s = - 1"
  by (simp add: comment_pos_def comment_scan_none)

lemma comment_pos_first:
  assumes "comment_start s i" and "\<forall>j<i. \<not> comment_start s j"
  shows "comment_pos s = int i"
proof -
  define n where "n = length s - 1"
  from comment_start_range [OF assms(1)] have i: "i < n" by (simp add: n_def)
  have "[0 ..< i + (n - i)] = [0 ..< i] @ [i ..< i + (n - i)]"
    by (rule upt_add_eq_append) simp
  with i have "[0 ..< n] = [0 ..< i] @ [i ..< n]" by simp
  also from i have "[i ..< n] = i # [Suc i ..< n]" by (rule upt_conv_Cons)
  finally have u: "[0 ..< n] = [0 ..< i] @ i # [Suc i ..< n]" .
  from assms(2) have "\<forall>j\<in>set [0 ..< i]. \<not> comment_start s j" by simp
  from comment_scan_first [OF this assms(1)] u show ?thesis
    by (simp only: comment_pos_def n_def)
qed

lemma minify_line_kept:
  assumes "strip line \<noteq> []" and "\<not> startswith (strip line) (str ''//'')"
    and "\<not> (startswith (strip line) (str ''<!--'') \<and> endswith (strip line) (str ''-->''))"
  shows "minify_line line =
           (if comment_pos (strip line) \<noteq> - 1
            then (if rstrip (slice_to (strip line) (comment_pos (strip line))) = [] then None
                  else Some (rstrip (slice_to (strip line) (comment_pos (strip line)))))
            else Some (strip line))"
  using assms by (auto simp: minify_line_def Let_def)

lemma minify_line_truncated:
  assumes "strip line \<noteq> []" and "\<not> startswith (strip line) (str ''//'')"
    and "\<not> (startswith (strip line) (str ''<!--'') \<and> endswith (strip line) (str ''-->''))"
    and "comment_start (strip line) i" and "\<forall>j<i. \<not> comment_start (strip line) j"
  shows "minify_line line =
           (if rstrip (take i (strip line)) = [] then None
            else Some (rstrip (take i (strip line))))"
proof -
  from comment_pos_first [OF assms(4,5)] have p: "comment_pos (strip line) = int i" .
  show ?thesis
    unfolding minify_line_kept [OF assms(1-3)] p slice_to_nat by simp
qed

lemma minify_line_unchanged:
  assumes "strip line \<noteq> []" and "\<not> startswith (strip line) (str ''//'')"
    and "\<not> (startswith (strip line) (str ''<!--'') \<and> endswith (strip line) (str ''-->''))"
    and "\<forall>i. \<not> comment_start (strip line) i"
  shows "minify_line line = Some (strip line)"
  unfolding minify_line_kept [OF assms(1-3)] comment_pos_none [OF assms(4)] by simp

lemmas eval_defs = str_def is_space_def lstrip_def rstrip_def strip_def startswith_def endswith_def
  clip_def slice_to_def slice_from_def slice_def comment_pos_def minify_line_def minify_content_def
  Let_def

lemma example_trailing: "minify_content (str ''foo // bar'') = str ''foo''"
  by (simp add: eval_defs)

lemma example_url: "minify_content (str ''http://example.com'') = str ''http://example.com''"
  by (simp add: eval_defs)

lemma example_comment_line:
  "minify_line (str ''// comment'') = None \<and> minify_content (str ''// comment'') = []"
  by (simp add: eval_defs)

lemma example_html_comment:
  "minify_line (str ''<!-- note -->'') = None \<and> minify_content (str ''<!-- note -->'') = []"
  by (simp add: eval_defs)

lemma guarded_line_strip: "strip guarded_line = str ''a://b // c''"
  by (simp add: guarded_line_def eval_defs)

lemma occurs_at_embedded:
  assumes "occurs_at s sub i"
  shows "occurs_at (a @ s @ b) sub (length a + i)"
proof -
  from assms have l: "i + length sub \<le> length s" and t: "take (length sub) (drop i s) = sub"
    by (simp_all add: occurs_at_def)
  from l have "drop (length a + i) (a @ s @ b) = drop i s @ b" by simp
  moreover from l have "take (length sub) (drop i s @ b) = take (length sub) (drop i s)" by simp
  ultimately have "take (length sub) (drop (length a + i) (a @ s @ b)) = sub" using t by simp
  with l show ?thesis by (simp add: occurs_at_def)
qed

lemma rstrip_split: "s = rstrip s @ rev (takeWhile is_space (rev s))"
proof -
  have "rev (takeWhile is_space (rev s) @ dropWhile is_space (rev s)) = rev (rev s)"
    by (simp only: takeWhile_dropWhile_id)
  then have "rev (dropWhile is_space (rev s)) @ rev (takeWhile is_space (rev s)) = s"
    by (simp only: rev_append rev_rev_ident)
  then show ?thesis by (simp only: rstrip_def)
qed

lemma strip_split:
  "line = takeWhile is_space line @ strip line @ rev (takeWhile is_space (rev (lstrip line)))"
proof -
  have "line = takeWhile is_space line @ lstrip line" by (simp add: lstrip_def)
  also have "lstrip line = strip line @ rev (takeWhile is_space (rev (lstrip line)))"
    unfolding strip_def by (rule rstrip_split)
  finally show ?thesis .
qed

lemma contains_strip: "contains (strip line) sub \<Longrightarrow> contains line sub"
proof -
  assume "contains (strip line) sub"
  then obtain i where "occurs_at (strip line) sub i" by (auto simp: contains_iff)
  from occurs_at_embedded [OF this, of "takeWhile is_space line"
      "rev (takeWhile is_space (rev (lstrip line)))"]
  have "\<exists>k. occurs_at line sub k" using strip_split [of line] by auto
  then show ?thesis by (simp add: contains_iff)
qed

lemma minify_line_plain:
  assumes "strip line \<noteq> []" and "\<not> contains line (str ''//'')"
    and "\<not> (startswith (strip line) (str ''<!--'') \<and> endswith (strip line) (str ''-->''))"
  shows "minify_line line = Some (strip line)"
proof -
  from assms(2) contains_strip have n: "\<not> contains (strip line) (str ''//'')" by blast
  then have o: "\<forall>i. \<not> occurs_at (strip line) (str ''//'') i" by (simp add: contains_iff)
  then have "\<not> startswith (strip line) (str ''//'')" by (simp add: occurs_at_0 [symmetric])
  moreover from o have "\<forall>i. \<not> comment_start (strip line) i" by (simp add: comment_start_def)
  ultimately show ?thesis using assms(1,3) by (intro minify_line_unchanged) simp_all
qed

lemma minify_line_no_comment:
  assumes "\<not> contains line (str ''//'')"
    and "\<not> (startswith (strip line) (str ''<!--'') \<and> endswith (strip line) (str ''-->''))"
  shows "minify_line line = (if strip line = [] then None else Some (strip line))"
proof (cases "strip line = []")
  case True
  then show ?thesis by (simp add: minify_line_def)
next
  case False
  with assms show ?thesis by (simp add: minify_line_plain)
qed

lemma concat_minify_loop_strip:
  "(\<forall>l\<in>set ls. minify_line l = (if strip l = [] then None else Some (strip l))) \<Longrightarrow>
     concat (minify_loop ls []) = concat (map strip ls)"
proof (induction ls)
  case Nil
  show ?case by simp
next
  case (Cons l ls)
  then have l: "minify_line l = (if strip l = [] then None else Some (strip l))"
    and r: "concat (minify_loop ls []) = concat (map strip ls)" by simp_all
  show ?case
  proof (cases "strip l = []")
    case True
    with l r show ?thesis unfolding minify_loop_Cons by simp
  next
    case False
    with l r show ?thesis unfolding minify_loop_Cons by simp
  qed
qed

lemma plain_doc_lines: "split_nl plain_doc = [str '' ab '', str ''c:d  '', []]"
  by (simp add: plain_doc_def str_def)

lemma strip_empty_iff: "strip s = [] \<longleftrightarrow> (\<forall>c\<in>set s. is_space c)"
proof
  assume "strip s = []"
  then have "\<forall>c\<in>set (lstrip s). is_space c" by (simp add: strip_def rstrip_empty)
  then have "\<forall>c\<in>set (dropWhile is_space s). is_space c" by (simp add: lstrip_def)
  moreover have "\<forall>c\<in>set (takeWhile is_space s). is_space c" by (auto dest: set_takeWhileD)
  moreover have "set s = set (takeWhile is_space s) \<union> set (dropWhile is_space s)"
    by (metis set_append takeWhile_dropWhile_id)
  ultimately show "\<forall>c\<in>set s. is_space c" by blast
next
  assume "\<forall>c\<in>set s. is_space c"
  then show "strip s = []" by (rule strip_blank)
qed

lemma split_nl_single: "10 \<notin> set s \<Longrightarrow> split_nl s = [s]"
  by (induction s) simp_all

lemma strip_trimmed:
  assumes "s \<noteq> []" and "\<not> is_space (hd s)" and "\<not> is_space (last s)"
  shows "strip s = s"
proof -
  from assms(1,2) have l: "lstrip s = s" by (cases s) (simp_all add: lstrip_def)
  from assms(1,3) have "dropWhile is_space (rev s) = rev s"
    by (cases "rev s") (simp_all add: hd_rev [symmetric])
  then have "rstrip s = s" by (simp add: rstrip_def)
  with l show ?thesis by (simp add: strip_def)
qed

lemma minify_content_single:
  "10 \<notin> set s \<Longrightarrow> minify_content s = (case minify_line s of None \<Rightarrow> [] | Some x \<Rightarrow> x)"
  by (simp add: minify_content_def split_nl_single split: option.splits)

lemma scenario_parts:
  "split_parts scenario_doc =
     Some (str ''<!--c-->'' @ [10] @ str ''A'' @ [10], [10] @ str ''B // x'' @ [10])"
  unfolding split_parts_def scenario_doc_start scenario_doc_end
  by (simp add: scenario_doc_def slice_to_def slice_from_def clip_def length_end_marker
      length_start_marker str_def)

lemma scenario_start_minified: "minify_content (str ''<!--c-->'' @ [10] @ str ''A'' @ [10]) = str ''A''"
  by (simp add: eval_defs)

lemma scenario_end_minified: "minify_content ([10] @ str ''B // x'' @ [10]) = str ''B''"
  by (simp add: eval_defs)

lemma scenario_full_minified: "minify_content scenario_doc = str ''AMIDB''"
  by (simp add: scenario_doc_def start_marker_def end_marker_def eval_defs)

lemma marker_lines_dropped: "minify_line start_marker = None \<and> minify_line end_marker = None"
  by (simp add: start_marker_def end_marker_def eval_defs)

section \<open>The marker splitter\<close>

text \<open>
  Claim C2. For every document that contains both markers, the split gives as its first
  part the document strictly before the first occurrence of the start marker, and as its
  second part the document from immediately after the first occurrence of the end marker,
  the first occurrence of the end marker being looked for in the whole document, and not
  only after the start marker. The parts are the values of \<^verbatim>\<open>start_part\<close> and
  \<^verbatim>\<open>end_part\<close> before they are minified.
\<close>

theorem split_parts_fragments:
  assumes "contains content start_marker" and "contains content end_marker"
  shows "\<exists>i k. first_at content start_marker i \<and> first_at content end_marker k \<and>
           split_parts content = Some (take i content, drop (k + length end_marker) content)"
proof -
  from assms obtain i k where "first_at content start_marker i" "first_at content end_marker k"
    using find_str_found by blast
  with split_parts_first show ?thesis by blast
qed

theorem split_parts_fragments_witness:
  "contains reversed_doc start_marker \<and> contains reversed_doc end_marker \<and>
   (\<exists>i k. first_at reversed_doc start_marker i \<and> first_at reversed_doc end_marker k \<and>
      split_parts reversed_doc =
        Some (take i reversed_doc, drop (k + length end_marker) reversed_doc))"
proof -
  have "find_str reversed_doc start_marker \<noteq> - 1" "find_str reversed_doc end_marker \<noteq> - 1"
    by (simp_all add: reversed_doc_start reversed_doc_end)
  then have c: "contains reversed_doc start_marker" "contains reversed_doc end_marker"
    by (simp_all add: find_str_absent)
  from split_parts_fragments [OF c] c show ?thesis by simp
qed

text \<open>
  Claim C10. For every document that contains both markers, the first part of a
  successful split does not contain the start marker.
\<close>

theorem prefix_without_start_marker:
  assumes "contains content start_marker" and "contains content end_marker"
    and "split_parts content = Some (prefix, suffix)"
  shows "\<not> contains prefix start_marker"
proof
  assume c: "contains prefix start_marker"
  from assms(1,2) obtain i k where f: "first_at content start_marker i"
    and "first_at content end_marker k"
    using find_str_found by blast
  with assms(3) have p: "prefix = take i content" by (simp add: split_parts_first)
  from c obtain j where "occurs_at prefix start_marker j" by (auto simp: contains_iff)
  with p have "occurs_at content start_marker j" "j + length start_marker \<le> i"
    using occurs_at_take by blast+
  then have "occurs_at content start_marker j" "j < i" by (simp_all add: length_start_marker)
  with f show False by (simp add: first_at_def list_all_iff)
qed

theorem prefix_without_start_marker_witness:
  "contains reversed_doc start_marker \<and> contains reversed_doc end_marker \<and>
   split_parts reversed_doc =
     Some (end_marker @ str ''x'', str ''x'' @ start_marker @ str ''y'' @ end_marker @ str ''z'') \<and>
   \<not> contains (end_marker @ str ''x'') start_marker"
proof -
  have "find_str reversed_doc start_marker \<noteq> - 1" "find_str reversed_doc end_marker \<noteq> - 1"
    by (simp_all add: reversed_doc_start reversed_doc_end)
  then have c: "contains reversed_doc start_marker" "contains reversed_doc end_marker"
    by (simp_all add: find_str_absent)
  have s: "split_parts reversed_doc =
     Some (end_marker @ str ''x'', str ''x'' @ start_marker @ str ''y'' @ end_marker @ str ''z'')"
    unfolding split_parts_def reversed_doc_start reversed_doc_end
    by (simp add: reversed_doc_def slice_to_def slice_from_def clip_def length_end_marker
        length_start_marker str_def)
  from prefix_without_start_marker [OF c s] c s show ?thesis by simp
qed

text \<open>
  Claim C3. For every document in which the first occurrence of the start marker is
  before the first occurrence of the end marker, the first part of the split, then the
  middle section from the start marker to the end marker with both markers, then the
  second part of the split, give the document back. The middle section is the slice of
  the document from the first index of the start marker to the end of the first end
  marker; it begins with the start marker and ends with the end marker.
\<close>

theorem split_round_trip:
  assumes "first_at content start_marker i" and "first_at content end_marker k" and "i < k"
  shows "\<exists>prefix suffix inner.
           split_parts content = Some (prefix, suffix) \<and>
           slice content (int i) (int (k + length end_marker)) = start_marker @ inner @ end_marker \<and>
           prefix @ (start_marker @ inner @ end_marker) @ suffix = content"
proof -
  from assms have os: "occurs_at content start_marker i" and oe: "occurs_at content end_marker k"
    by (simp_all add: first_at_def)
  define suffix where "suffix = drop (k + length end_marker) content"
  from between_markers [OF os oe assms(3)] obtain inner
    where d: "drop i content = start_marker @ inner @ end_marker @ suffix"
    unfolding suffix_def by blast
  define middle where "middle = start_marker @ inner @ end_marker"
  from d have dm: "drop i content = middle @ suffix" by (simp add: middle_def)
  from oe have kl: "k + length end_marker \<le> length content" by (simp add: occurs_at_def)
  have "length (drop i content) = length middle + length suffix" by (simp only: dm length_append)
  with kl assms(3) have lm: "length middle = k + length end_marker - i"
    by (simp add: suffix_def)
  have "take i content @ drop i content = content" by simp
  then have rt: "take i content @ middle @ suffix = content" by (simp only: dm)
  from assms(3) have "slice content (int i) (int (k + length end_marker)) =
          take (k + length end_marker - i) (drop i content)"
    by (intro slice_nat) simp
  also have "\<dots> = take (length middle) (middle @ suffix)" by (simp only: lm dm)
  also have "\<dots> = middle" by simp
  finally have sl: "slice content (int i) (int (k + length end_marker)) = middle" .
  from split_parts_first [OF assms(1,2)]
  have "split_parts content = Some (take i content, suffix)" by (simp only: suffix_def)
  with sl rt show ?thesis unfolding middle_def by blast
qed

theorem split_round_trip_witness:
  "first_at scenario_doc start_marker 11 \<and> first_at scenario_doc end_marker 46 \<and>
   (11 :: nat) < 46 \<and>
   (\<exists>prefix suffix inner.
      split_parts scenario_doc = Some (prefix, suffix) \<and>
      slice scenario_doc (int 11) (int (46 + length end_marker)) =
        start_marker @ inner @ end_marker \<and>
      prefix @ (start_marker @ inner @ end_marker) @ suffix = scenario_doc)"
proof -
  have f: "first_at scenario_doc start_marker 11" "first_at scenario_doc end_marker 46"
    by (simp_all add: find_str_first scenario_doc_start scenario_doc_end)
  have l: "(11 :: nat) < 46" by simp
  from split_round_trip [OF f l] f show ?thesis by simp
qed

section \<open>A missing marker\<close>

text \<open>
  Claim C4. For every document in which one of the two markers does not occur, the run
  fails: the split prints its error and returns no part, and the run ends with the files
  as they were, nothing written.
\<close>

theorem missing_marker_no_output:
  assumes "nodes w input_path = Some (Text content)"
    and "\<not> contains content start_marker \<or> \<not> contains content end_marker"
  shows "split_parts content = None \<and>
         fst (split_svg input_path w) = Inr (None, None, None) \<and>
         Error_no_markers \<in> set (stdout (snd (split_svg input_path w))) \<and>
         nodes (main w) = nodes w \<and>
         stdout (main w) = stdout w @ [Processing_file input_path,
           Original_file_size (length content), Error_no_markers]"
proof -
  from assms(2) have n: "split_parts content = None" by (simp add: split_parts_None)
  from split_svg_no_markers [OF assms(1) n] main_no_markers [OF assms(1) n] n
  show ?thesis by simp
qed

theorem missing_marker_no_output_witness:
  "nodes (world_with start_only_doc) input_path = Some (Text start_only_doc) \<and>
   \<not> contains start_only_doc end_marker \<and>
   fst (split_svg input_path (world_with start_only_doc)) = Inr (None, None, None) \<and>
   nodes (main (world_with start_only_doc)) = nodes (world_with start_only_doc) \<and>
   stdout (main (world_with start_only_doc)) =
     [Processing_file input_path, Original_file_size 32, Error_no_markers]"
proof -
  have n: "nodes (world_with start_only_doc) input_path = Some (Text start_only_doc)"
    by (simp add: world_with_def)
  have l: "length start_only_doc = 32"
    by (simp add: start_only_doc_def start_marker_def str_def)
  have s: "stdout (world_with start_only_doc) = []" by (simp add: world_with_def)
  from missing_marker_no_output [OF n disjI2 [OF start_only_doc_end]] n start_only_doc_end l s
  show ?thesis by simp
qed

section \<open>The line filter\<close>

text \<open>
  Claim C9. For every input text, the output of the line filter is at most as long as the
  input.
\<close>

theorem minify_content_not_longer: "length (minify_content content) \<le> length content"
proof -
  have "length (minify_content content) \<le> length (concat (split_nl content))"
    unfolding minify_content_def by (rule length_minify_loop)
  also have "\<dots> \<le> length content" by (rule length_concat_split_nl)
  finally show ?thesis .
qed

text \<open>
  Claim C8. For every document whose lines are all whitespace-only, the empty document
  among them, the line filter gives the empty string.
\<close>

theorem blank_lines_dropped:
  assumes "\<forall>line\<in>set (split_nl content). \<forall>c\<in>set line. is_space c"
  shows "minify_content content = []"
proof -
  have "minify_line l = None" if "l \<in> set (split_nl content)" for l
  proof -
    from assms that have "strip l = []" by (simp add: strip_blank)
    then show ?thesis by (simp add: minify_line_def)
  qed
  then have "minify_loop (split_nl content) [] = []" by (simp add: minify_loop_all_dropped)
  then show ?thesis by (simp add: minify_content_def)
qed

theorem blank_lines_dropped_witness:
  "list_all (\<lambda>line. list_all is_space line) (split_nl blank_doc) \<and>
   minify_content blank_doc = []"
proof -
  have a: "\<forall>line\<in>set (split_nl blank_doc). \<forall>c\<in>set line. is_space c"
    by (simp add: blank_doc_def str_def is_space_def)
  from blank_lines_dropped [OF a] a show ?thesis by (simp add: list_all_iff)
qed

text \<open>
  Claim C5. For every line whose trimmed form is not empty, does not start with
  \<^verbatim>\<open>//\<close> and is not a full-line HTML comment, the line filter cuts the trimmed
  line at the first \<^verbatim>\<open>//\<close> whose preceding character exists and is not a colon,
  trims the whitespace at the end of what is left and drops the line if nothing is left;
  without such a \<^verbatim>\<open>//\<close> it keeps the trimmed line. A \<^verbatim>\<open>//\<close> always has a
  character at its second position, so the scan, which stops one short of the last index,
  misses none. In particular \<^verbatim>\<open>foo // bar\<close> gives \<^verbatim>\<open>foo\<close>,
  \<^verbatim>\<open>http://example.com\<close> is kept, and the lines \<^verbatim>\<open>// comment\<close> and
  \<^verbatim>\<open><!-- note -->\<close> are dropped.
\<close>

theorem line_filter_truncates:
  "(\<forall>line. strip line \<noteq> [] \<and> \<not> startswith (strip line) (str ''//'') \<and>
       \<not> (startswith (strip line) (str ''<!--'') \<and> endswith (strip line) (str ''-->'')) \<longrightarrow>
       (\<forall>i. comment_start (strip line) i \<and> (\<forall>j<i. \<not> comment_start (strip line) j) \<longrightarrow>
          minify_line line =
            (if rstrip (take i (strip line)) = [] then None
             else Some (rstrip (take i (strip line))))) \<and>
       ((\<forall>i. \<not> comment_start (strip line) i) \<longrightarrow> minify_line line = Some (strip line))) \<and>
   minify_content (str ''foo // bar'') = str ''foo'' \<and>
   minify_content (str ''http://example.com'') = str ''http://example.com'' \<and>
   minify_line (str ''// comment'') = None \<and> minify_content (str ''// comment'') = [] \<and>
   minify_line (str ''<!-- note -->'') = None \<and> minify_content (str ''<!-- note -->'') = []"
proof (intro conjI allI impI)
  fix line i
  assume "strip line \<noteq> [] \<and> \<not> startswith (strip line) (str ''//'') \<and>
       \<not> (startswith (strip line) (str ''<!--'') \<and> endswith (strip line) (str ''-->''))"
    and "comment_start (strip line) i \<and> (\<forall>j<i. \<not> comment_start (strip line) j)"
  then show "minify_line line =
            (if rstrip (take i (strip line)) = [] then None
             else Some (rstrip (take i (strip line))))"
    using minify_line_truncated [of line i] by blast
next
  fix line
  assume "strip line \<noteq> [] \<and> \<not> startswith (strip line) (str ''//'') \<and>
       \<not> (startswith (strip line) (str ''<!--'') \<and> endswith (strip line) (str ''-->''))"
    and "\<forall>i. \<not> comment_start (strip line) i"
  then show "minify_line line = Some (strip line)"
    using minify_line_unchanged [of line] by blast
qed (simp_all only: example_trailing example_url example_comment_line example_html_comment)

theorem line_filter_truncates_witness:
  "strip guarded_line \<noteq> [] \<and> \<not> startswith (strip guarded_line) (str ''//'') \<and>
   \<not> (startswith (strip guarded_line) (str ''<!--'') \<and>
      endswith (strip guarded_line) (str ''-->'')) \<and>
   comment_start (strip guarded_line) 6 \<and>
   list_all (\<lambda>j. \<not> comment_start (strip guarded_line) j) [0, 1, 2, 3, 4, 5] \<and>
   minify_line guarded_line = Some (str ''a://b'')"
proof -
  have a: "strip guarded_line \<noteq> [] \<and> \<not> startswith (strip guarded_line) (str ''//'') \<and>
     \<not> (startswith (strip guarded_line) (str ''<!--'') \<and>
        endswith (strip guarded_line) (str ''-->''))"
    unfolding guarded_line_strip by (simp add: str_def startswith_def endswith_def)
  have c: "comment_start (strip guarded_line) 6"
    unfolding guarded_line_strip by (simp add: str_def comment_start_def occurs_at_def)
  have n: "list_all (\<lambda>j. \<not> comment_start (strip guarded_line) j) [0, 1, 2, 3, 4, 5]"
    unfolding guarded_line_strip by (simp add: str_def comment_start_def occurs_at_def)
  have "\<forall>j<6. j \<in> set [0, 1, 2, 3, 4, 5 :: nat]" by auto
  with n have m: "\<forall>j<6. \<not> comment_start (strip guarded_line) j"
    unfolding list_all_iff by blast
  have r: "rstrip (take 6 (strip guarded_line)) = str ''a://b''"
    unfolding guarded_line_strip by (simp add: str_def rstrip_def is_space_def)
  from line_filter_truncates have "minify_line guarded_line =
      (if rstrip (take 6 (strip guarded_line)) = [] then None
       else Some (rstrip (take 6 (strip guarded_line))))"
    using a c m by blast
  with r have "minify_line guarded_line = Some (str ''a://b'')" by (simp add: str_def)
  with a c n show ?thesis by simp
qed

text \<open>
  Claim C6. For every input text in which no line contains \<^verbatim>\<open>//\<close> and no trimmed
  line both starts with \<^verbatim>\<open><!--\<close> and ends with \<^verbatim>\<open>-->\<close>, the output of the line
  filter is the trimmed lines, in their order, one after the other with nothing between
  them. The texts without a blank line are among them. A blank line trims to the empty
  string, which the concatenation does not show, so the last piece of a text that ends in
  a line feed, which is empty, needs no exception.
\<close>

theorem plain_lines_concatenated:
  assumes "\<forall>line\<in>set (split_nl content).
             \<not> contains line (str ''//'') \<and>
             \<not> (startswith (strip line) (str ''<!--'') \<and> endswith (strip line) (str ''-->''))"
  shows "minify_content content = concat (map strip (split_nl content))"
proof -
  from assms have "\<forall>l\<in>set (split_nl content).
      minify_line l = (if strip l = [] then None else Some (strip l))"
    by (simp add: minify_line_no_comment)
  then have "concat (minify_loop (split_nl content) []) = concat (map strip (split_nl content))"
    by (rule concat_minify_loop_strip)
  then show ?thesis by (simp only: minify_content_def)
qed

theorem plain_lines_concatenated_witness:
  "split_nl plain_doc = [str '' ab '', str ''c:d  '', []] \<and>
   list_all (\<lambda>line. \<not> contains line (str ''//'')) (split_nl plain_doc) \<and>
   list_all (\<lambda>line. \<not> (startswith (strip line) (str ''<!--'') \<and>
                        endswith (strip line) (str ''-->''))) (split_nl plain_doc) \<and>
   minify_content plain_doc = str ''abc:d''"
proof -
  have b: "list_all (\<lambda>line. \<not> contains line (str ''//'')) (split_nl plain_doc)"
    unfolding plain_doc_lines by (simp add: contains_def occurs_at_def str_def)
  have c: "list_all (\<lambda>line. \<not> (startswith (strip line) (str ''<!--'') \<and>
                        endswith (strip line) (str ''-->''))) (split_nl plain_doc)"
    unfolding plain_doc_lines by (simp add: eval_defs)
  from b c have "\<forall>line\<in>set (split_nl plain_doc).
             \<not> contains line (str ''//'') \<and>
             \<not> (startswith (strip line) (str ''<!--'') \<and> endswith (strip line) (str ''-->''))"
    unfolding list_all_iff by blast
  from plain_lines_concatenated [OF this]
  have "minify_content plain_doc = concat (map strip (split_nl plain_doc))" .
  also have "\<dots> = str ''abc:d''" unfolding plain_doc_lines by (simp add: eval_defs)
  finally have "minify_content plain_doc = str ''abc:d''" .
  with b c plain_doc_lines show ?thesis by simp
qed

text \<open>
  Claim C7. For every document of one line, without whitespace at its start or end, in
  which every \<^verbatim>\<open>//\<close> comes immediately after a colon, and which is not a full-line
  HTML comment, the line filter returns the document as it is; so filtering it twice is
  filtering it once.
\<close>

theorem minified_line_unchanged:
  assumes "10 \<notin> set s"
    and "s \<noteq> [] \<longrightarrow> \<not> is_space (hd s) \<and> \<not> is_space (last s)"
    and "\<forall>i. occurs_at s (str ''//'') i \<longrightarrow> 0 < i \<and> s ! (i - 1) = of_char CHR '':''"
    and "\<not> (startswith s (str ''<!--'') \<and> endswith s (str ''-->''))"
  shows "minify_content s = s \<and> minify_content (minify_content s) = minify_content s"
proof -
  have "minify_content s = s"
  proof (cases "s = []")
    case True
    then show ?thesis by (simp add: minify_content_def minify_line_def strip_def lstrip_def rstrip_def)
  next
    case False
    with assms(2) have t: "strip s = s" by (simp add: strip_trimmed)
    from assms(3) have "\<not> occurs_at s (str ''//'') 0" by blast
    then have a: "\<not> startswith (strip s) (str ''//'')" by (simp add: t occurs_at_0)
    from assms(3) have b: "\<forall>i. \<not> comment_start (strip s) i"
      by (auto simp: t comment_start_def)
    from False assms(4) have "minify_line s = Some (strip s)"
      by (intro minify_line_unchanged a b) (simp_all add: t)
    with assms(1) t show ?thesis by (simp add: minify_content_single)
  qed
  then show ?thesis by simp
qed

theorem minified_line_unchanged_witness:
  "10 \<notin> set url_doc \<and> url_doc \<noteq> [] \<and> \<not> is_space (hd url_doc) \<and> \<not> is_space (last url_doc) \<and>
   occurs_at url_doc (str ''//'') 5 \<and> url_doc ! 4 = of_char CHR '':'' \<and>
   list_all (\<lambda>i. i = 5 \<or> \<not> occurs_at url_doc (str ''//'') i) [0 ..< Suc (length url_doc)] \<and>
   \<not> (startswith url_doc (str ''<!--'') \<and> endswith url_doc (str ''-->'')) \<and>
   minify_content url_doc = url_doc \<and>
   minify_content (minify_content url_doc) = minify_content url_doc"
proof -
  have a: "10 \<notin> set url_doc" by (simp add: url_doc_def str_def)
  have b: "url_doc \<noteq> []" "\<not> is_space (hd url_doc)" "\<not> is_space (last url_doc)"
    by (simp_all add: url_doc_def str_def is_space_def)
  have c: "occurs_at url_doc (str ''//'') 5" "url_doc ! 4 = of_char CHR '':''"
    by (simp_all add: url_doc_def str_def occurs_at_def)
  have d: "list_all (\<lambda>i. i = 5 \<or> \<not> occurs_at url_doc (str ''//'') i) [0 ..< Suc (length url_doc)]"
    by (simp add: url_doc_def str_def occurs_at_def)
  have e: "\<not> (startswith url_doc (str ''<!--'') \<and> endswith url_doc (str ''-->''))"
    by (simp add: url_doc_def str_def startswith_def endswith_def)
  have "0 < i \<and> url_doc ! (i - 1) = of_char CHR '':''" if o: "occurs_at url_doc (str ''//'') i" for i
  proof -
    from o have "i \<le> length url_doc" by (simp add: occurs_at_def)
    then have "i \<in> set [0 ..< Suc (length url_doc)]" by (simp only: set_upt) simp
    with d o have "i = 5" unfolding list_all_iff by blast
    with c(2) show ?thesis by simp
  qed
  then have f: "\<forall>i. occurs_at url_doc (str ''//'') i \<longrightarrow> 0 < i \<and> url_doc ! (i - 1) = of_char CHR '':''"
    by blast
  from b have g: "url_doc \<noteq> [] \<longrightarrow> \<not> is_space (hd url_doc) \<and> \<not> is_space (last url_doc)" by simp
  from minified_line_unchanged [OF a g f e] a b c d e show ?thesis by simp
qed

section \<open>The example scenario\<close>

text \<open>
  Claim C1, as amended. For the document of the example scenario, the minified start
  fragment is \<^verbatim>\<open>A\<close>, the minified end fragment is \<^verbatim>\<open>B\<close>, and the minified full
  content is \<^verbatim>\<open>AMIDB\<close>: in the pass over the full content each marker is a line of its
  own that starts with \<^verbatim>\<open><!--\<close> and ends with \<^verbatim>\<open>-->\<close>, which the line filter
  drops as it drops every such line.
\<close>

theorem scenario_results:
  assumes "nodes w path = Some (Text scenario_doc)"
  shows "fst (split_svg path w) = Inr (Some (str ''A''), Some (str ''B''), Some (str ''AMIDB'')) \<and>
         minify_line start_marker = None \<and> minify_line end_marker = None"
proof -
  from split_svg_found [OF assms scenario_parts]
  have "fst (split_svg path w) = Inr (Some (str ''A''), Some (str ''B''), Some (str ''AMIDB''))"
    by (simp only: scenario_start_minified scenario_end_minified scenario_full_minified)
  then show ?thesis using marker_lines_dropped by (rule conjI)
qed

theorem scenario_results_witness:
  "nodes (world_with scenario_doc) input_path = Some (Text scenario_doc) \<and>
   fst (split_svg input_path (world_with scenario_doc)) =
     Inr (Some (str ''A''), Some (str ''B''), Some (str ''AMIDB''))"
proof -
  have n: "nodes (world_with scenario_doc) input_path = Some (Text scenario_doc)"
    by (simp add: world_with_def)
  from scenario_results [OF n] n show ?thesis by simp
qed

text \<open>
  Claim C1 as it is stated has the two marker lines kept in the minified full content.
  The code does not give that.
\<close>

theorem scenario_full_counterexample:
  "fst (split_svg input_path (world_with scenario_doc)) \<noteq>
     Inr (Some (str ''A''), Some (str ''B''),
          Some (str ''A'' @ start_marker @ str ''MID'' @ end_marker @ str ''B'')) \<and>
   minify_content scenario_doc \<noteq> str ''A'' @ start_marker @ str ''MID'' @ end_marker @ str ''B''"
proof -
  have n: "nodes (world_with scenario_doc) input_path = Some (Text scenario_doc)"
    by (simp add: world_with_def)
  have d: "str ''AMIDB'' \<noteq> str ''A'' @ start_marker @ str ''MID'' @ end_marker @ str ''B''"
    by (simp add: str_def start_marker_def end_marker_def)
  from split_svg_found [OF n scenario_parts] d show ?thesis
    by (simp only: scenario_start_minified scenario_end_minified scenario_full_minified) simp
qed

end
